theory Spec2Isabelle
  imports Complex_Main "HOL-Library.Product_Lexorder"
begin

section \<open>Errors\<close>

text \<open>
  Every exception that \<^verbatim>\<open>update.py\<close> can raise is a value of this type.
  The constructor says which Python exception it stands for and where it is raised:
  \<^item> \<open>IndexError\<close>: \<^verbatim>\<open>requests.pop(0)\<close> on an empty list;
  \<^item> \<open>ZeroDivisionError\<close>: \<^verbatim>\<open>burst / rate\<close> with a zero rate;
  \<^item> \<open>NotConfigured k\<close>: \<^verbatim>\<open>ValueError("k is not configured")\<close> of \<^verbatim>\<open>main\<close>;
  \<^item> \<open>KeyError k\<close>: a dictionary read \<^verbatim>\<open>d[k]\<close> of an absent key;
  \<^item> \<open>InvalidInt s\<close>: the \<^verbatim>\<open>ValueError\<close> of \<^verbatim>\<open>int(s)\<close>;
  \<^item> \<open>InvalidIsoformat s\<close>: the \<^verbatim>\<open>ValueError\<close> of \<^verbatim>\<open>datetime.date.fromisoformat(s)\<close>;
  \<^item> \<open>UpstreamError\<close>: whatever \<^verbatim>\<open>pyopenstates.get_bill\<close> raises.
\<close>

datatype py_error =
    IndexError
  | ZeroDivisionError
  | NotConfigured string
  | KeyError string
  | InvalidInt string
  | InvalidIsoformat string
  | UpstreamError

section \<open>The rate limiter\<close>





section \<open>Text, numbers and dates of the Python library\<close>

text \<open>
  A \<open>char\<close> stands for a code point below 256, and the model covers text in that
  range. There \<^verbatim>\<open>[A-Z]\<close>, \<^verbatim>\<open>[a-z]\<close> and \<^verbatim>\<open>\d\<close> are the three sets below.
\<close>

definition upper_AZ :: "char \<Rightarrow> bool" where
  "upper_AZ c = (c \<in> set ''ABCDEFGHIJKLMNOPQRSTUVWXYZ'')"

definition lower_az :: "char \<Rightarrow> bool" where
  "lower_az c = (c \<in> set ''abcdefghijklmnopqrstuvwxyz'')"

definition digit_val :: "char \<Rightarrow> nat option" where
  "digit_val c =
     map_of [(CHR ''0'', 0), (CHR ''1'', 1), (CHR ''2'', 2), (CHR ''3'', 3), (CHR ''4'', 4),
             (CHR ''5'', 5), (CHR ''6'', 6), (CHR ''7'', 7), (CHR ''8'', 8), (CHR ''9'', 9)] c"

definition is_digit :: "char \<Rightarrow> bool" where
  "is_digit c = (digit_val c \<noteq> None)"

definition digit_char :: "nat \<Rightarrow> char" where
  "digit_char n = ''0123456789'' ! (n mod 10)"

definition newline :: char where
  "newline = CHR 0x0A"

text \<open>
  \<^verbatim>\<open>"{}".format(n)\<close> for an integer: its decimal digits, with a minus sign when negative.
\<close>

fun show_nat :: "nat \<Rightarrow> string" where
  "show_nat n = (if n < 10 then [digit_char n] else show_nat (n div 10) @ [digit_char n])"

definition show_int :: "int \<Rightarrow> string" where
  "show_int i = (if i < 0 then CHR ''-'' # show_nat (nat (- i)) else show_nat (nat i))"

text \<open>
  \<^verbatim>\<open>int(s)\<close> on text, base 10: white space is stripped on both sides (for code points
  below 256 these are tab to carriage return, the space, U+0085 and U+00A0), then comes an
  optional sign and a run of decimal digits in which single underscores may separate
  digits. Anything else raises \<^verbatim>\<open>ValueError\<close>, which is \<open>None\<close> here.
\<close>

definition int_space :: "char \<Rightarrow> bool" where
  "int_space c = (c \<in> set [CHR 0x09, CHR 0x0A, CHR 0x0B, CHR 0x0C, CHR 0x0D, CHR 0x20,
                            CHR 0x85, CHR 0xA0])"

fun int_digits :: "nat \<Rightarrow> string \<Rightarrow> nat \<times> string" where
  "int_digits acc [] = (acc, [])"
| "int_digits acc [c] =
     (case digit_val c of Some d \<Rightarrow> (10 * acc + d, []) | None \<Rightarrow> (acc, [c]))"
| "int_digits acc (c # c' # cs) =
     (case digit_val c of
        Some d \<Rightarrow> int_digits (10 * acc + d) (c' # cs)
      | None \<Rightarrow>
          (if c = CHR ''_'' then
             (case digit_val c' of
                Some d \<Rightarrow> int_digits (10 * acc + d) cs
              | None \<Rightarrow> (acc, c # c' # cs))
           else (acc, c # c' # cs)))"

definition py_int :: "string \<Rightarrow> int option" where
  "py_int s =
     (let s1 = dropWhile int_space s;
          neg = (case s1 of c # _ \<Rightarrow> c = CHR ''-'' | [] \<Rightarrow> False);
          s2 = (case s1 of c # r \<Rightarrow> if c = CHR ''-'' \<or> c = CHR ''+'' then r else s1 | [] \<Rightarrow> s1)
      in case s2 of
           [] \<Rightarrow> None
         | c # _ \<Rightarrow>
             if \<not> is_digit c then None
             else (case int_digits 0 s2 of
                     (n, rest) \<Rightarrow>
                       if dropWhile int_space rest = [] then
                         Some (if neg then - int n else int n)
                       else None))"

text \<open>
  A \<^verbatim>\<open>datetime.date\<close> is its year, month and day; Python compares dates in that
  order, which is the lexicographic order of the triple. A \<^verbatim>\<open>datetime\<close> is a date with
  the seconds since midnight, and \<^verbatim>\<open>.date()\<close> drops the time.
\<close>

type_synonym date = "nat \<times> nat \<times> nat"

type_synonym datetime = "date \<times> nat"

definition datetime_date :: "datetime \<Rightarrow> date" where
  "datetime_date dt = fst dt"

definition is_leap :: "nat \<Rightarrow> bool" where
  "is_leap y = (y mod 4 = 0 \<and> (y mod 100 \<noteq> 0 \<or> y mod 400 = 0))"

definition days_in_month :: "nat \<Rightarrow> nat \<Rightarrow> nat" where
  "days_in_month y m =
     (if m = 2 then (if is_leap y then 29 else 28)
      else if m = 4 \<or> m = 6 \<or> m = 9 \<or> m = 11 then 30 else 31)"

definition valid_date :: "nat \<Rightarrow> nat \<Rightarrow> nat \<Rightarrow> bool" where
  "valid_date y m d =
     (1 \<le> y \<and> y \<le> 9999 \<and> 1 \<le> m \<and> m \<le> 12 \<and> 1 \<le> d \<and> d \<le> days_in_month y m)"

text \<open>
  \<^verbatim>\<open>datetime.date.fromisoformat\<close> as Python 3.7 to 3.10 document it: the text is exactly
  \<^verbatim>\<open>YYYY-MM-DD\<close>, and the three numbers form a date of the calendar. Everything else
  raises \<^verbatim>\<open>ValueError\<close>.
\<close>

definition fromisoformat :: "string \<Rightarrow> py_error + date" where
  "fromisoformat s =
     (case s of
        [y1, y2, y3, y4, h1, m1, m2, h2, d1, d2] \<Rightarrow>
          (case (digit_val y1, digit_val y2, digit_val y3, digit_val y4,
                 digit_val m1, digit_val m2, digit_val d1, digit_val d2) of
             (Some a, Some b, Some c, Some e, Some f, Some g, Some h, Some i) \<Rightarrow>
               (let year = 1000 * a + 100 * b + 10 * c + e;
                    month = 10 * f + g;
                    day = 10 * h + i
                in if h1 = CHR ''-'' \<and> h2 = CHR ''-'' \<and> valid_date year month day
                   then Inr (year, month, day)
                   else Inl (InvalidIsoformat s))
           | _ \<Rightarrow> Inl (InvalidIsoformat s))
      | _ \<Rightarrow> Inl (InvalidIsoformat s))"

text \<open>\<^verbatim>\<open>date.isoformat()\<close>: \<^verbatim>\<open>"%04d-%02d-%02d"\<close>.\<close>

definition isoformat :: "date \<Rightarrow> string" where
  "isoformat dt =
     (case dt of (y, m, d) \<Rightarrow>
        [digit_char (y div 1000), digit_char (y div 100), digit_char (y div 10), digit_char y,
         CHR ''-'', digit_char (m div 10), digit_char m,
         CHR ''-'', digit_char (d div 10), digit_char d])"

section \<open>The sync procedure\<close>

subsection \<open>Data\<close>

text \<open>
  A row of the table "State" as \<^verbatim>\<open>get_all\<close> returns it: the record id and the
  dictionary \<^verbatim>\<open>fields\<close> (here \<open>row_fields\<close>), which has a key for each non-empty
  column. Cell values are text.
\<close>

record airtable_row =
  row_id :: string
  row_fields :: "string \<rightharpoonup> string"

text \<open>One entry of \<^verbatim>\<open>bill_data["actions"]\<close>, and what \<^verbatim>\<open>get_bill\<close> returns.\<close>

record action_rec =
  act_date :: string
  act_action :: string
  act_actor :: string
  act_type :: "string list"

record bill_data =
  action_dates_last :: datetime
  actions :: "action_rec list"

text \<open>The dictionary \<^verbatim>\<open>update\<close> inserted into the table "State status".\<close>

record update_row =
  Bill :: "string list"
  Status :: string
  Status_notes :: string
  Date_last_status_change :: string
  Location :: string
  Reading :: string

text \<open>
  What the run does to the outside world, in order: the read of the table "State", a
  request to OpenStates (state, term, bill id), an insert into "State status", a line
  printed on the console.
\<close>

datatype event =
    GetAll
  | GetBill string string string
  | Insert update_row
  | Print string

fun inserted :: "event list \<Rightarrow> update_row list" where
  "inserted [] = []"
| "inserted (Insert r # evs) = r # inserted evs"
| "inserted (_ # evs) = inserted evs"

type_synonym upstream = "string \<Rightarrow> string \<Rightarrow> string \<Rightarrow> py_error + bill_data"

subsection \<open>The steps of \<^verbatim>\<open>main\<close>\<close>

text \<open>
  Lines 38 to 41: \<^verbatim>\<open>not KEY or not re.search(r"[a-z]", KEY)\<close>, where \<^verbatim>\<open>KEY\<close> is
  \<^verbatim>\<open>None\<close> when the environment lacks the variable.
\<close>

definition not_configured :: "string option \<Rightarrow> bool" where
  "not_configured key =
     (case key of
        None \<Rightarrow> True
      | Some k \<Rightarrow> k = [] \<or> \<not> list_ex lower_az k)"

text \<open>
  Line 67: \<^verbatim>\<open>re.sub(r"^([A-Z]+)(\d+)$", r"\1 \2", s)\<close>. The two groups are greedy and
  their character sets are disjoint, so a match takes the longest run of letters and then
  the longest run of digits. Without \<^verbatim>\<open>re.MULTILINE\<close>, \<^verbatim>\<open>$\<close> matches at the end of
  the text and also just before a newline that ends the text; the replacement covers the
  match only, so that newline stays. Among the code points below 256, \<^verbatim>\<open>\d\<close>
  matches 0 to 9 only; a text with another Unicode decimal digit is beyond this definition.
\<close>

definition bill_id_of :: "string \<Rightarrow> string" where
  "bill_id_of s =
     (let letters = takeWhile upper_AZ s;
          r1 = dropWhile upper_AZ s;
          digits = takeWhile is_digit r1;
          r2 = dropWhile is_digit r1
      in if letters \<noteq> [] \<and> digits \<noteq> [] \<and> (r2 = [] \<or> r2 = [newline])
         then letters @ '' '' @ digits @ r2
         else s)"

text \<open>Lines 73 to 76. Python's \<^verbatim>\<open>%\<close> rounds down, as \<open>mod\<close> on \<open>int\<close> does.\<close>

definition leg_year :: "int \<Rightarrow> string" where
  "leg_year year =
     (if year mod 2 \<noteq> 0 then show_int year @ show_int (year + 1)
      else show_int (year - 1) @ show_int year)"

text \<open>Lines 83 to 87.\<close>

definition latest_airtable_update :: "airtable_row \<Rightarrow> py_error + date option" where
  "latest_airtable_update bill =
     (case row_fields bill ''Last update'' of
        None \<Rightarrow> Inr None
      | Some s \<Rightarrow> (case fromisoformat s of Inl e \<Rightarrow> Inl e | Inr d \<Rightarrow> Inr (Some d)))"

text \<open>
  \<^verbatim>\<open>latest_airtable_update and x <= latest_airtable_update\<close>: a date is always true
  in a condition, so this is false without a date and the comparison with one.
\<close>

definition on_or_before :: "date option \<Rightarrow> date \<Rightarrow> bool" where
  "on_or_before latest x = (case latest of None \<Rightarrow> False | Some d \<Rightarrow> x \<le> d)"

text \<open>
  Lines 115 to 120, on the current \<^verbatim>\<open>reading\<close> (\<^verbatim>\<open>None\<close> when the row has no
  "Reading") and the action's list \<^verbatim>\<open>type\<close>. \<^verbatim>\<open>not reading\<close> holds for \<^verbatim>\<open>None\<close>
  and for the empty text.
\<close>

definition advance_reading :: "string option \<Rightarrow> string list \<Rightarrow> string" where
  "advance_reading reading tys =
     (let r0 = (case reading of
                  None \<Rightarrow> ''First reading''
                | Some r \<Rightarrow> if r = [] then ''First reading'' else r);
          r1 = (if ''bill:reading:2'' \<in> set tys \<and> r0 = ''First reading''
                then ''Second reading'' else r0);
          r2 = (if ''bill:reading:3'' \<in> set tys \<and> r1 = ''Second reading''
                then ''Third reading'' else r1)
      in r2)"

text \<open>Line 110: \<^verbatim>\<open>update_data["date"].split(" ")[0]\<close> is the text before the first space.\<close>

definition update_date_of :: "action_rec \<Rightarrow> py_error + date" where
  "update_date_of update_data =
     fromisoformat (takeWhile (\<lambda>c. c \<noteq> CHR '' '') (act_date update_data))"

text \<open>
  Lines 106 to 136, the loop over \<^verbatim>\<open>bill_data["actions"]\<close>, with the loop's variables
  \<^verbatim>\<open>reading\<close> and \<^verbatim>\<open>bill_update_count\<close> as arguments. It returns the inserts made, in
  order, and the exception that ended it or the final count. Inserts made before an
  exception stay made.
\<close>

fun actions_loop ::
  "airtable_row \<Rightarrow> date option \<Rightarrow> action_rec list \<Rightarrow> string option \<Rightarrow> nat
     \<Rightarrow> event list \<times> (py_error + nat)" where
  "actions_loop bill latest [] reading bill_update_count = ([], Inr bill_update_count)"
| "actions_loop bill latest (update_data # rest) reading bill_update_count =
     (case update_date_of update_data of
        Inl e \<Rightarrow> ([], Inl e)
      | Inr update_date \<Rightarrow>
          if on_or_before latest update_date
          then actions_loop bill latest rest reading bill_update_count
          else
            (let reading' = advance_reading reading (act_type update_data);
                 location = (if act_actor update_data = ''lower'' then ''Assembly'' else ''Senate'');
                 update = \<lparr>Bill = [row_id bill],
                           Status = (case row_fields bill ''Status'' of None \<Rightarrow> ''Moving'' | Some st \<Rightarrow> st),
                           Status_notes = act_action update_data,
                           Date_last_status_change = isoformat update_date,
                           Location = location,
                           Reading = reading'\<rparr>
             in case actions_loop bill latest rest (Some reading') (bill_update_count + 1) of
                  (evs, res) \<Rightarrow> (Insert update # evs, res)))"

text \<open>Lines 137 to 141.\<close>

definition update_line :: "string \<Rightarrow> nat \<Rightarrow> string" where
  "update_line bill_id n =
     bill_id @ '': '' @ show_nat n @ '' update'' @ (if n = 1 then [] else ''s'')"

text \<open>
  Lines 62 to 141, the body of the loop over the rows, for one row. \<open>Inr ()\<close> is the end
  of the body or a \<^verbatim>\<open>continue\<close>; \<open>Inl e\<close> is an exception, which nothing catches.
  \<^verbatim>\<open>get_bill\<close> is \<^verbatim>\<open>ratelimit(pyopenstates.get_bill)\<close>: the wrapper returns what the
  wrapped function returns, so the model calls the upstream function and leaves the
  pacing to the section on the rate limiter.
\<close>

definition process_bill :: "upstream \<Rightarrow> airtable_row \<Rightarrow> event list \<times> (py_error + unit)" where
  "process_bill get_bill bill =
     (case row_fields bill ''Bill'' of
        None \<Rightarrow> ([], Inr ())
      | Some b \<Rightarrow>
          (let bill_id = bill_id_of b in
           case row_fields bill ''Year introduced'' of
             None \<Rightarrow> ([], Inl (KeyError ''Year introduced''))
           | Some ys \<Rightarrow>
               (case py_int ys of
                  None \<Rightarrow> ([], Inl (InvalidInt ys))
                | Some year \<Rightarrow>
                    (case get_bill ''CA'' (leg_year year) bill_id of
                       Inl e \<Rightarrow> ([GetBill ''CA'' (leg_year year) bill_id], Inl e)
                     | Inr data \<Rightarrow>
                         (let latest_openstates_action = datetime_date (action_dates_last data) in
                          case latest_airtable_update bill of
                            Inl e \<Rightarrow> ([GetBill ''CA'' (leg_year year) bill_id], Inl e)
                          | Inr latest \<Rightarrow>
                              if on_or_before latest latest_openstates_action
                              then ([GetBill ''CA'' (leg_year year) bill_id,
                                     Print (bill_id @ '': No updates'')], Inr ())
                              else
                                (case actions_loop bill latest (actions data)
                                        (row_fields bill ''Reading'') 0 of
                                   (evs, Inl e) \<Rightarrow>
                                     (GetBill ''CA'' (leg_year year) bill_id # evs, Inl e)
                                 | (evs, Inr n) \<Rightarrow>
                                     (GetBill ''CA'' (leg_year year) bill_id # evs
                                        @ [Print (update_line bill_id n)], Inr ())))))))"

text \<open>Lines 57 to 141: the rows in order, until one raises.\<close>

fun bills_loop :: "upstream \<Rightarrow> airtable_row list \<Rightarrow> event list \<times> (py_error + unit)" where
  "bills_loop get_bill [] = ([], Inr ())"
| "bills_loop get_bill (bill # rest) =
     (case process_bill get_bill bill of
        (evs, Inl e) \<Rightarrow> (evs, Inl e)
      | (evs, Inr _) \<Rightarrow>
          (case bills_loop get_bill rest of (evs', res) \<Rightarrow> (evs @ evs', res)))"

text \<open>
  \<^verbatim>\<open>main\<close>. The two keys are what \<^verbatim>\<open>os.environ.get\<close> returned, \<open>listed_bills\<close> is what
  the table "State" holds, sorted by "Bill" by the store. Creating the two
  \<^verbatim>\<open>Airtable\<close> objects and setting the OpenStates key send nothing, and inserts are
  taken to succeed.
\<close>

definition main ::
  "string option \<Rightarrow> string option \<Rightarrow> upstream \<Rightarrow> airtable_row list
     \<Rightarrow> event list \<times> (py_error + unit)" where
  "main AIRTABLE_API_KEY OPENSTATES_API_KEY get_bill listed_bills =
     (if not_configured AIRTABLE_API_KEY then ([], Inl (NotConfigured ''AIRTABLE_API_KEY''))
      else if not_configured OPENSTATES_API_KEY then ([], Inl (NotConfigured ''OPENSTATES_API_KEY''))
      else
        (case bills_loop get_bill listed_bills of
           (evs, Inl e) \<Rightarrow> (GetAll # evs, Inl e)
         | (evs, Inr _) \<Rightarrow>
             (GetAll # evs @ [Print [], Print ''See https://airtable.com/appVuarUc0kCpjwWn''],
              Inr ())))"

section \<open>Notions used to state the properties\<close>

text \<open>
  A text that is a leading run of uppercase letters followed by digits, and nothing else.
\<close>

definition letters_then_digits :: "string \<Rightarrow> bool" where
  "letters_then_digits s =
     (takeWhile upper_AZ s \<noteq> [] \<and> dropWhile upper_AZ s \<noteq> []
        \<and> list_all is_digit (dropWhile upper_AZ s))"

text \<open>
  \<open>stage_step a b\<close>: stage \<open>b\<close> is stage \<open>a\<close> or lies further along
  First reading, Second reading, Third reading.
\<close>

definition stage_step :: "string \<Rightarrow> string \<Rightarrow> bool" where
  "stage_step a b =
     (a = b
      \<or> (a = ''First reading'' \<and> (b = ''Second reading'' \<or> b = ''Third reading''))
      \<or> (a = ''Second reading'' \<and> b = ''Third reading''))"

text \<open>The stage a row of the table "State" starts from, if it has one.\<close>

definition stored_reading :: "airtable_row \<Rightarrow> string list" where
  "stored_reading bill =
     (case row_fields bill ''Reading'' of
        None \<Rightarrow> []
      | Some r \<Rightarrow> if r = [] then [] else [r])"

text \<open>
  An action is new with respect to the stored date when its parsed date is strictly
  after it; without a stored date every action is new.
\<close>

definition is_new :: "date option \<Rightarrow> action_rec \<Rightarrow> bool" where
  "is_new latest u =
     (case latest of
        None \<Rightarrow> True
      | Some D \<Rightarrow> (case update_date_of u of Inl _ \<Rightarrow> False | Inr d \<Rightarrow> D < d))"

text \<open>Row \<open>r\<close> is the Status Row of action \<open>u\<close>: its note, its date, its chamber.\<close>

definition row_of_action :: "update_row \<Rightarrow> action_rec \<Rightarrow> bool" where
  "row_of_action r u =
     (Status_notes r = act_action u
      \<and> (case update_date_of u of
            Inl _ \<Rightarrow> False
          | Inr d \<Rightarrow> Date_last_status_change r = isoformat d)
      \<and> Location r = (if act_actor u = ''lower'' then ''Assembly'' else ''Senate''))"

text \<open>
  The store between two runs, as the idempotence property supposes it: a row for which
  the run inserted Status Rows gets, as its "Last update", the latest of their dates;
  every other row stays as it is. \<open>latest_inserted\<close> picks that date among the rows.
\<close>

definition date_key :: "string \<Rightarrow> date" where
  "date_key s = (case fromisoformat s of Inl _ \<Rightarrow> (0, 0, 0) | Inr d \<Rightarrow> d)"

fun latest_inserted :: "update_row list \<Rightarrow> string option" where
  "latest_inserted [] = None"
| "latest_inserted (r # rs) =
     (case latest_inserted rs of
        None \<Rightarrow> Some (Date_last_status_change r)
      | Some s \<Rightarrow>
          if date_key s \<le> date_key (Date_last_status_change r)
          then Some (Date_last_status_change r) else Some s)"

definition refresh :: "upstream \<Rightarrow> airtable_row \<Rightarrow> airtable_row" where
  "refresh get_bill bill =
     (case latest_inserted (inserted (fst (process_bill get_bill bill))) of
        None \<Rightarrow> bill
      | Some s \<Rightarrow> bill\<lparr>row_fields := (row_fields bill)(''Last update'' \<mapsto> s)\<rparr>)"

text \<open>
  Example data: a row of the table "State" that is on its first reading and has no
  "Last update", and an upstream answer with three actions, tagged as a second reading,
  a third reading and a second reading again.
\<close>

definition example_bill :: airtable_row where
  "example_bill =
     \<lparr>row_id = ''rec1'',
      row_fields = [''Bill'' \<mapsto> ''AB123'', ''Year introduced'' \<mapsto> ''2023'',
                    ''Reading'' \<mapsto> ''First reading'']\<rparr>"

definition example_actions :: "action_rec list" where
  "example_actions =
     [\<lparr>act_date = ''2023-01-05 00:00:00'', act_action = ''Read second time'',
        act_actor = ''lower'', act_type = [''bill:reading:2'']\<rparr>,
      \<lparr>act_date = ''2023-02-05 00:00:00'', act_action = ''Read third time'',
        act_actor = ''lower'', act_type = [''bill:reading:3'']\<rparr>,
      \<lparr>act_date = ''2023-03-01 00:00:00'', act_action = ''In Senate. Read second time'',
        act_actor = ''upper'', act_type = [''bill:reading:2'']\<rparr>]"

definition example_upstream :: upstream where
  "example_upstream st term b =
     Inr \<lparr>action_dates_last = ((2023, 3, 1), 0), actions = example_actions\<rparr>"

declare show_nat.simps [simp del]

section \<open>Properties of the rate limiter\<close>






section \<open>The bill identifier\<close>

lemma digit_not_upper: "is_digit c \<Longrightarrow> \<not> upper_AZ c"
  by (auto simp: is_digit_def digit_val_def upper_AZ_def split: if_splits)

lemma newline_not_digit: "\<not> is_digit newline"
  by (simp add: is_digit_def digit_val_def newline_def)

lemma newline_not_upper: "\<not> upper_AZ newline"
  by (simp add: upper_AZ_def newline_def)

lemma span_append:
  assumes "list_all P xs" "ys = [] \<or> \<not> P (hd ys)"
  shows "takeWhile P (xs @ ys) = xs" "dropWhile P (xs @ ys) = ys"
proof -
  have "takeWhile P ys = [] \<and> dropWhile P ys = ys" using assms(2) by (cases ys) auto
  then show "takeWhile P (xs @ ys) = xs" "dropWhile P (xs @ ys) = ys"
    using assms(1) by (induction xs) auto
qed

lemma split_letters:
  assumes "list_all upper_AZ l" "d \<noteq> []" "list_all is_digit d"
  shows "takeWhile upper_AZ (l @ d @ r) = l" "dropWhile upper_AZ (l @ d @ r) = d @ r"
proof -
  have "\<not> upper_AZ (hd (d @ r))" using assms(2,3) by (cases d) (auto simp: digit_not_upper)
  then show "takeWhile upper_AZ (l @ d @ r) = l" "dropWhile upper_AZ (l @ d @ r) = d @ r"
    using span_append[OF assms(1), of "d @ r"] by simp_all
qed

lemma split_digits:
  assumes "list_all is_digit d" "r = [] \<or> \<not> is_digit (hd r)"
  shows "takeWhile is_digit (d @ r) = d" "dropWhile is_digit (d @ r) = r"
  using span_append[OF assms] by simp_all

text \<open>
  On texts of code points below 256: letters followed by digits get one space, also
  before a final newline, and a text that is changed has one of these two shapes.
\<close>

lemma bill_id_of_shape:
  assumes "l \<noteq> []" "list_all upper_AZ l" "d \<noteq> []" "list_all is_digit d"
  shows "bill_id_of (l @ d) = l @ '' '' @ d"
    and "bill_id_of (l @ d @ [newline]) = l @ '' '' @ d @ [newline]"
proof -
  have a: "takeWhile upper_AZ (l @ d) = l" "dropWhile upper_AZ (l @ d) = d"
    using split_letters[of l d "[]"] assms(2,3,4) by simp_all
  have b: "takeWhile is_digit d = d" "dropWhile is_digit d = []"
    using split_digits[of d "[]"] assms(4) by simp_all
  show "bill_id_of (l @ d) = l @ '' '' @ d"
    using assms by (simp add: bill_id_of_def a b Let_def list_all_iff)
  have c: "takeWhile upper_AZ (l @ d @ [newline]) = l" "dropWhile upper_AZ (l @ d @ [newline]) = d @ [newline]"
    using split_letters[OF assms(2,3,4), of "[newline]"] by simp_all
  have e: "takeWhile is_digit (d @ [newline]) = d" "dropWhile is_digit (d @ [newline]) = [newline]"
    using split_digits[OF assms(4), of "[newline]"] by (simp_all add: newline_not_digit)
  show "bill_id_of (l @ d @ [newline]) = l @ '' '' @ d @ [newline]"
    using assms by (simp add: bill_id_of_def c e Let_def list_all_iff)
qed

lemma list_all_takeWhile: "list_all P (takeWhile P xs)"
  by (induction xs) auto

lemma bill_id_of_changed:
  assumes "bill_id_of s \<noteq> s"
  shows "letters_then_digits s \<or> (s \<noteq> [] \<and> last s = newline \<and> letters_then_digits (butlast s))"
proof -
  let ?l = "takeWhile upper_AZ s" and ?r1 = "dropWhile upper_AZ s"
  let ?d = "takeWhile is_digit ?r1" and ?r2 = "dropWhile is_digit ?r1"
  from assms have c: "?l \<noteq> []" "?d \<noteq> []" "?r2 = [] \<or> ?r2 = [newline]"
    by (auto simp: bill_id_of_def Let_def split: if_splits)
  have s: "s = ?l @ ?d @ ?r2" by simp
  have dd: "list_all is_digit ?d" by (rule list_all_takeWhile)
  have ll: "list_all upper_AZ ?l" by (rule list_all_takeWhile)
  from c(3) show ?thesis
  proof
    assume "?r2 = []"
    then have r1: "?r1 = ?d" by (metis append_Nil2 takeWhile_dropWhile_id)
    then have "letters_then_digits s"
      using c dd unfolding letters_then_digits_def by metis
    then show ?thesis ..
  next
    assume n: "?r2 = [newline]"
    then have s': "s = (?l @ ?d) @ [newline]" using s by (metis append.assoc)
    then have bl: "butlast s = ?l @ ?d" and "last s = newline" and "s \<noteq> []"
      by (metis butlast_snoc, metis last_snoc, metis snoc_eq_iff_butlast)
    have "takeWhile upper_AZ (?l @ ?d) = ?l" "dropWhile upper_AZ (?l @ ?d) = ?d"
      using split_letters[OF ll c(2) dd, of "[]"] by simp_all
    then have "letters_then_digits (butlast s)"
      unfolding bl letters_then_digits_def using c dd by simp
    then show ?thesis using \<open>last s = newline\<close> \<open>s \<noteq> []\<close> by blast
  qed
qed

text \<open>
  C7 says that a text made of a run of uppercase letters followed by digits gets exactly
  one space between the letters and the digits, and that every other text is returned
  unchanged. The code, at "AB123" followed by a newline: this text is not a run of letters
  followed by digits, yet it is not returned unchanged. \<^verbatim>\<open>$\<close> matches just before the
  newline that ends the text, so the pattern matches and the space is inserted.
\<close>

theorem bill_id_trailing_newline:
  "\<not> letters_then_digits (''AB123'' @ [newline])
   \<and> bill_id_of (''AB123'' @ [newline]) = ''AB 123'' @ [newline]
   \<and> bill_id_of (''AB123'' @ [newline]) \<noteq> ''AB123'' @ [newline]"
  by (simp add: letters_then_digits_def bill_id_of_def upper_AZ_def is_digit_def digit_val_def
        newline_def)

section \<open>The session key\<close>

text \<open>
  C6. The session key of an odd year \<open>y\<close> is \<open>y\<close> followed by \<open>y + 1\<close>, that of
  an even year is \<open>y - 1\<close> followed by \<open>y\<close>; 2023 and 2024 both give "20232024".
\<close>

theorem session_key:
  "(odd y \<longrightarrow> leg_year y = show_int y @ show_int (y + 1))
   \<and> (even y \<longrightarrow> leg_year y = show_int (y - 1) @ show_int y)
   \<and> leg_year 2023 = ''20232024'' \<and> leg_year 2024 = ''20232024''"
proof -
  have "leg_year 2023 = ''20232024''"
    by (simp add: leg_year_def show_int_def show_nat.simps digit_char_def)
  moreover have "leg_year 2024 = ''20232024''"
    by (simp add: leg_year_def show_int_def show_nat.simps digit_char_def)
  ultimately show ?thesis by (auto simp: leg_year_def odd_iff_mod_2_eq_one)
qed

text \<open>The theorem at the odd year 2023 and at the even year 2024.\<close>

theorem session_key_witness:
  "odd (2023::int) \<and> leg_year 2023 = show_int 2023 @ show_int (2023 + 1)
   \<and> even (2024::int) \<and> leg_year 2024 = show_int (2024 - 1) @ show_int 2024"
  using session_key[of 2023] session_key[of 2024] by simp

section \<open>Configuration\<close>

text \<open>
  C8. The run ends with the configuration error, having read nothing, requested nothing,
  inserted nothing and printed nothing, if and only if one of the two keys is absent or
  has no letter from a to z. Otherwise the run goes past the check.
\<close>

theorem config_validation:
  "((\<exists>k. main a_key o_key get_bill bills = ([], Inl (NotConfigured k)))
      \<longleftrightarrow> (a_key = None \<or> (\<exists>s. a_key = Some s \<and> (\<forall>c\<in>set s. \<not> lower_az c))
           \<or> o_key = None \<or> (\<exists>s. o_key = Some s \<and> (\<forall>c\<in>set s. \<not> lower_az c))))
   \<and> ((\<exists>s. a_key = Some s \<and> (\<exists>c\<in>set s. lower_az c))
        \<and> (\<exists>s. o_key = Some s \<and> (\<exists>c\<in>set s. lower_az c))
      \<longrightarrow> (\<exists>evs. fst (main a_key o_key get_bill bills) = GetAll # evs))"
proof -
  have "(\<exists>k. main a_key o_key get_bill bills = ([], Inl (NotConfigured k)))
      \<longleftrightarrow> (a_key = None \<or> (\<exists>s. a_key = Some s \<and> (\<forall>c\<in>set s. \<not> lower_az c))
           \<or> o_key = None \<or> (\<exists>s. o_key = Some s \<and> (\<forall>c\<in>set s. \<not> lower_az c)))"
    by (auto simp: main_def not_configured_def list_ex_iff
             split: option.splits prod.splits sum.splits)
  moreover have "\<exists>evs. fst (main a_key o_key get_bill bills) = GetAll # evs"
    if "\<exists>s. a_key = Some s \<and> (\<exists>c\<in>set s. lower_az c)"
      and "\<exists>s. o_key = Some s \<and> (\<exists>c\<in>set s. lower_az c)"
    using that
    by (auto simp: main_def not_configured_def list_ex_iff split: prod.splits sum.splits)
  ultimately show ?thesis by blast
qed

text \<open>
  The theorem without the first key, and with two keys that have a lowercase letter.
\<close>

theorem config_validation_witness:
  "main None (Some ''key'') (\<lambda>st term b. Inl UpstreamError) []
     = ([], Inl (NotConfigured ''AIRTABLE_API_KEY''))
   \<and> fst (main (Some ''Key1'') (Some ''key2'') (\<lambda>st term b. Inl UpstreamError) [])
     = [GetAll, Print [], Print ''See https://airtable.com/appVuarUc0kCpjwWn'']"
  using config_validation[of None "Some ''key''" "\<lambda>st term b. Inl UpstreamError" "[]"]
    config_validation[of "Some ''Key1''" "Some ''key2''" "\<lambda>st term b. Inl UpstreamError" "[]"]
  by (simp add: main_def not_configured_def lower_az_def)

section \<open>Dates as text\<close>

lemma digit_char_val: "digit_val c = Some a \<Longrightarrow> x mod 10 = a \<Longrightarrow> digit_char x = c"
  by (auto simp: digit_val_def digit_char_def split: if_splits)

lemma digit_val_less: "digit_val c = Some a \<Longrightarrow> a < 10"
  by (auto simp: digit_val_def split: if_splits)

lemma fromisoformat_Inr:
  assumes "fromisoformat s = Inr dt"
  shows "\<exists>y1 y2 y3 y4 m1 m2 d1 d2 a b c e f g h i.
           s = [y1, y2, y3, y4, CHR ''-'', m1, m2, CHR ''-'', d1, d2]
           \<and> digit_val y1 = Some a \<and> digit_val y2 = Some b \<and> digit_val y3 = Some c
           \<and> digit_val y4 = Some e \<and> digit_val m1 = Some f \<and> digit_val m2 = Some g
           \<and> digit_val d1 = Some h \<and> digit_val d2 = Some i
           \<and> dt = (1000 * a + 100 * b + 10 * c + e, 10 * f + g, 10 * h + i)"
  using assms unfolding fromisoformat_def
  by (simp split: list.splits option.splits if_splits add: Let_def)


lemma last_digit:
  fixes q r :: nat
  assumes "r < 10"
  shows "(10 * q + r) div 10 = q" "(10 * q + r) mod 10 = r"
  using assms by simp_all

lemma four_digits:
  fixes a b c e :: nat
  assumes "a < 10" "b < 10" "c < 10" "e < 10"
  defines "y \<equiv> 1000 * a + 100 * b + 10 * c + e"
  shows "(y div 1000) mod 10 = a" "(y div 100) mod 10 = b" "(y div 10) mod 10 = c" "y mod 10 = e"
proof -
  have y: "y = 10 * (10 * (10 * a + b) + c) + e" by (simp add: y_def)
  have d1: "y div 10 = 10 * (10 * a + b) + c" and m1: "y mod 10 = e"
    unfolding y using last_digit[OF assms(4)] by blast+
  have d2: "y div 10 div 10 = 10 * a + b" and m2: "(y div 10) mod 10 = c"
    unfolding d1 using last_digit[OF assms(3)] by blast+
  have d3: "y div 10 div 10 div 10 = a" and m3: "(y div 10 div 10) mod 10 = b"
    unfolding d2 using last_digit[OF assms(2)] by blast+
  have h: "y div 100 = y div 10 div 10" using div_mult2_eq[of y 10 10] by simp
  have t: "y div 1000 = y div 10 div 10 div 10"
    using div_mult2_eq[of y 100 10] h by simp
  show "(y div 1000) mod 10 = a" unfolding t d3 using assms(1) by simp
  show "(y div 100) mod 10 = b" unfolding h by (rule m3)
  show "(y div 10) mod 10 = c" by (rule m2)
  show "y mod 10 = e" by (rule m1)
qed

lemma two_digits:
  fixes f g :: nat
  assumes "f < 10" "g < 10"
  shows "((10 * f + g) div 10) mod 10 = f" "(10 * f + g) mod 10 = g"
  using assms by simp_all

text \<open>A text that parses as a date is the ISO format of that date.\<close>

lemma isoformat_fromisoformat:
  assumes "fromisoformat s = Inr dt"
  shows "isoformat dt = s"
proof -
  from fromisoformat_Inr[OF assms]
  obtain y1 y2 y3 y4 m1 m2 d1 d2 a b c e f g h i where
    s: "s = [y1, y2, y3, y4, CHR ''-'', m1, m2, CHR ''-'', d1, d2]"
    and v: "digit_val y1 = Some a" "digit_val y2 = Some b" "digit_val y3 = Some c"
      "digit_val y4 = Some e" "digit_val m1 = Some f" "digit_val m2 = Some g"
      "digit_val d1 = Some h" "digit_val d2 = Some i"
    and dt: "dt = (1000 * a + 100 * b + 10 * c + e, 10 * f + g, 10 * h + i)"
    by blast
  note l = v[THEN digit_val_less]
  have y: "digit_char ((1000 * a + 100 * b + 10 * c + e) div 1000) = y1"
    "digit_char ((1000 * a + 100 * b + 10 * c + e) div 100) = y2"
    "digit_char ((1000 * a + 100 * b + 10 * c + e) div 10) = y3"
    "digit_char (1000 * a + 100 * b + 10 * c + e) = y4"
    using four_digits[OF l(1-4)] v(1-4) digit_char_val by blast+
  have m: "digit_char ((10 * f + g) div 10) = m1" "digit_char (10 * f + g) = m2"
    using two_digits[OF l(5,6)] v(5,6) digit_char_val by blast+
  have d: "digit_char ((10 * h + i) div 10) = d1" "digit_char (10 * h + i) = d2"
    using two_digits[OF l(7,8)] v(7,8) digit_char_val by blast+
  show ?thesis unfolding dt s isoformat_def using y m d by simp
qed

lemma inserted_append: "inserted (xs @ ys) = inserted xs @ inserted ys"
  by (induction xs rule: inserted.induct) auto

section \<open>The loop over the actions\<close>

lemma actions_loop_inserts:
  "fst (actions_loop bill latest us reading n) = map Insert (inserted (fst (actions_loop bill latest us reading n)))"
  by (induction us arbitrary: reading n) (auto simp: Let_def split_beta split: sum.splits)

lemma on_or_before_is_new:
  "update_date_of u = Inr d \<Longrightarrow> on_or_before latest d \<longleftrightarrow> \<not> is_new latest u"
  by (auto simp: on_or_before_def is_new_def split: option.splits)

lemma actions_loop_diff:
  assumes "\<forall>u\<in>set us. \<exists>d. update_date_of u = Inr d"
  shows "snd (actions_loop bill latest us reading n) = Inr (n + length (filter (is_new latest) us))
         \<and> list_all2 row_of_action (inserted (fst (actions_loop bill latest us reading n)))
              (filter (is_new latest) us)"
  using assms
proof (induction us arbitrary: reading n)
  case Nil
  then show ?case by simp
next
  case (Cons u us)
  then obtain d where d: "update_date_of u = Inr d" by auto
  have rest: "\<forall>u\<in>set us. \<exists>d. update_date_of u = Inr d" using Cons.prems by simp
  show ?case
  proof (cases "on_or_before latest d")
    case True
    then have "\<not> is_new latest u" using on_or_before_is_new[OF d] by simp
    then show ?thesis using d True Cons.IH[OF rest] by simp
  next
    case False
    then have new: "is_new latest u" using on_or_before_is_new[OF d] by simp
    show ?thesis
      using d False new Cons.IH[OF rest, of "Some (advance_reading reading (act_type u))" "n + 1"]
      by (simp add: Let_def row_of_action_def split_beta)
  qed
qed

lemma actions_loop_returns:
  "(\<exists>k. snd (actions_loop bill latest us reading n) = Inr k) \<longleftrightarrow> (\<forall>u\<in>set us. \<not> isl (update_date_of u))"
proof (induction us arbitrary: reading n)
  case Nil
  then show ?case by simp
next
  case (Cons u us)
  show ?case
  proof (cases "update_date_of u")
    case (Inl e)
    then show ?thesis by simp
  next
    case (Inr d)
    then show ?thesis
      using Cons.IH[of reading n] Cons.IH[of "Some (advance_reading reading (act_type u))" "n + 1"]
      by (simp add: Let_def split_beta)
  qed
qed

section \<open>Reading stages\<close>

lemma stage_step_trans: "stage_step a b \<Longrightarrow> stage_step b c \<Longrightarrow> stage_step a c"
  unfolding stage_step_def by auto

lemma advance_reading_nonempty: "advance_reading reading tys \<noteq> []"
  by (auto simp: advance_reading_def Let_def split: option.splits)

lemma advance_reading_step:
  "r \<noteq> [] \<Longrightarrow> stage_step r (advance_reading (Some r) tys)"
  by (auto simp: advance_reading_def Let_def stage_step_def)

lemma actions_loop_stages:
  "sorted_wrt stage_step (map Reading (inserted (fst (actions_loop bill latest us reading n))))
   \<and> (\<forall>r. reading = Some r \<and> r \<noteq> [] \<longrightarrow>
        (\<forall>x\<in>set (map Reading (inserted (fst (actions_loop bill latest us reading n)))). stage_step r x))"
proof (induction us arbitrary: reading n)
  case Nil
  then show ?case by simp
next
  case (Cons u us)
  show ?case
  proof (cases "update_date_of u")
    case (Inl e)
    then show ?thesis by simp
  next
    case (Inr d)
    show ?thesis
    proof (cases "on_or_before latest d")
      case True
      then show ?thesis using Inr Cons.IH[of reading n] by simp
    next
      case False
      let ?r' = "advance_reading reading (act_type u)"
      let ?rest = "map Reading (inserted (fst (actions_loop bill latest us (Some ?r') (n + 1))))"
      have ih: "sorted_wrt stage_step ?rest" "\<forall>x\<in>set ?rest. stage_step ?r' x"
        using Cons.IH[of "Some ?r'" "n + 1"] advance_reading_nonempty[of reading "act_type u"] by auto
      have eq: "map Reading (inserted (fst (actions_loop bill latest (u # us) reading n))) = ?r' # ?rest"
        using Inr False by (simp add: Let_def split_beta)
      have "stage_step r x" if r: "reading = Some r" "r \<noteq> []" and x: "x \<in> set (?r' # ?rest)" for r x
      proof -
        have first: "stage_step r ?r'" using r advance_reading_step[of r "act_type u"] by simp
        show ?thesis
        proof (cases "x = ?r'")
          case True
          then show ?thesis using first by simp
        next
          case False
          then have "x \<in> set ?rest" using x by simp
          then have "stage_step ?r' x" using ih(2) by blast
          then show ?thesis using first stage_step_trans by blast
        qed
      qed
      then show ?thesis unfolding eq using ih by simp
    qed
  qed
qed

section \<open>One row of the table\<close>

text \<open>The definitions that evaluate the sync procedure on concrete data.\<close>

lemmas eval_defs = process_bill_def py_int_def int_space_def is_digit_def digit_val_def
  latest_airtable_update_def on_or_before_def update_date_of_def fromisoformat_def
  valid_date_def days_in_month_def is_leap_def advance_reading_def Let_def datetime_date_def
  example_bill_def example_actions_def example_upstream_def leg_year_def show_int_def
  show_nat.simps digit_char_def bill_id_of_def upper_AZ_def isoformat_def update_line_def

text \<open>
  Rows are inserted for a bill only by the loop over its actions, which is reached only
  past the fetch and past the comparison of the two latest dates.
\<close>

lemma process_bill_rows:
  "inserted (fst (process_bill g bill)) = []
   \<or> (\<exists>b ys year data latest.
         row_fields bill ''Bill'' = Some b \<and> row_fields bill ''Year introduced'' = Some ys
         \<and> py_int ys = Some year \<and> g ''CA'' (leg_year year) (bill_id_of b) = Inr data
         \<and> latest_airtable_update bill = Inr latest
         \<and> \<not> on_or_before latest (datetime_date (action_dates_last data))
         \<and> inserted (fst (process_bill g bill))
             = inserted (fst (actions_loop bill latest (actions data) (row_fields bill ''Reading'') 0))
         \<and> (snd (process_bill g bill) = Inr () \<longrightarrow>
              (\<exists>k. snd (actions_loop bill latest (actions data) (row_fields bill ''Reading'') 0) = Inr k)))"
  by (auto simp: process_bill_def Let_def inserted_append split: option.splits sum.splits prod.splits)

lemma process_bill_fetched:
  assumes "row_fields bill ''Bill'' = Some b" "row_fields bill ''Year introduced'' = Some ys"
    "py_int ys = Some year" "g ''CA'' (leg_year year) (bill_id_of b) = Inr data"
    "latest_airtable_update bill = Inr latest"
  shows "process_bill g bill =
     (if on_or_before latest (datetime_date (action_dates_last data))
      then ([GetBill ''CA'' (leg_year year) (bill_id_of b),
             Print (bill_id_of b @ '': No updates'')], Inr ())
      else (case actions_loop bill latest (actions data) (row_fields bill ''Reading'') 0 of
              (evs, Inl e) \<Rightarrow> (GetBill ''CA'' (leg_year year) (bill_id_of b) # evs, Inl e)
            | (evs, Inr n) \<Rightarrow>
                (GetBill ''CA'' (leg_year year) (bill_id_of b) # evs
                   @ [Print (update_line (bill_id_of b) n)], Inr ())))"
  using assms by (simp add: process_bill_def Let_def)

lemma stored_reading_stages:
  "sorted_wrt stage_step
     (stored_reading bill @ map Reading (inserted (fst (actions_loop bill latest us (row_fields bill ''Reading'') n))))"
  using actions_loop_stages[of bill latest us "row_fields bill ''Reading''" n]
  by (auto simp: stored_reading_def sorted_wrt_append split: option.splits)

text \<open>
  C3. In the processing of one bill, the stages written into the inserted rows, preceded
  by the stage the bill had in the store (if any), only move forward along First reading,
  Second reading, Third reading: each stage is the one before it or a later one. In
  particular, for the example bill, which starts from "First reading", and the three
  example actions, tagged second reading, third reading, second reading, the stages
  inserted are "Second reading", "Third reading", "Third reading".
\<close>

theorem reading_monotone:
  "sorted_wrt stage_step (stored_reading bill @ map Reading (inserted (fst (process_bill g bill))))
   \<and> stored_reading example_bill = [''First reading'']
   \<and> map act_type example_actions = [[''bill:reading:2''], [''bill:reading:3''], [''bill:reading:2'']]
   \<and> map Reading (inserted (fst (process_bill example_upstream example_bill)))
        = [''Second reading'', ''Third reading'', ''Third reading'']"
proof -
  have "sorted_wrt stage_step (stored_reading bill @ map Reading (inserted (fst (process_bill g bill))))"
  proof -
    from process_bill_rows[of g bill] show ?thesis
    proof
      assume "inserted (fst (process_bill g bill)) = []"
      then show ?thesis by (simp add: stored_reading_def split: option.splits)
    next
      assume "\<exists>b ys year data latest.
         row_fields bill ''Bill'' = Some b \<and> row_fields bill ''Year introduced'' = Some ys
         \<and> py_int ys = Some year \<and> g ''CA'' (leg_year year) (bill_id_of b) = Inr data
         \<and> latest_airtable_update bill = Inr latest
         \<and> \<not> on_or_before latest (datetime_date (action_dates_last data))
         \<and> inserted (fst (process_bill g bill))
             = inserted (fst (actions_loop bill latest (actions data) (row_fields bill ''Reading'') 0))
         \<and> (snd (process_bill g bill) = Inr () \<longrightarrow>
              (\<exists>k. snd (actions_loop bill latest (actions data) (row_fields bill ''Reading'') 0) = Inr k))"
      then obtain latest and data :: bill_data where
        "inserted (fst (process_bill g bill))
             = inserted (fst (actions_loop bill latest (actions data) (row_fields bill ''Reading'') 0))"
        by blast
      then show ?thesis using stored_reading_stages[of bill latest "actions data" 0] by simp
    qed
  qed
  moreover have "stored_reading example_bill = [''First reading'']"
    by (simp add: stored_reading_def example_bill_def)
  moreover have "map act_type example_actions
                   = [[''bill:reading:2''], [''bill:reading:3''], [''bill:reading:2'']]"
    by (simp add: example_actions_def)
  moreover have "map Reading (inserted (fst (process_bill example_upstream example_bill)))
        = [''Second reading'', ''Third reading'', ''Third reading'']"
    by (simp add: eval_defs)
  ultimately show ?thesis by blast
qed

section \<open>The diff against the stored date\<close>

text \<open>
  C2. Let the loop run over the action list of a bill, with the stored last-update date
  \<open>D\<close> or with none, all dates of the actions being dates. Then the loop inserts
  a Status Row for exactly the actions whose parsed date is strictly after \<open>D\<close> (for
  every action when there is no \<open>D\<close>): the rows inserted are, in order, the rows of those
  actions, the loop does nothing else than these inserts, and the count it ends with is
  the number of those actions.
\<close>

theorem diff_correctness:
  assumes "\<forall>u\<in>set us. \<exists>d. update_date_of u = Inr d"
  shows "snd (actions_loop bill latest us reading 0) = Inr (length (filter (is_new latest) us))
     \<and> fst (actions_loop bill latest us reading 0)
          = map Insert (inserted (fst (actions_loop bill latest us reading 0)))
     \<and> list_all2 row_of_action (inserted (fst (actions_loop bill latest us reading 0)))
          (filter (is_new latest) us)"
  using actions_loop_diff[OF assms, of bill latest reading 0]
    actions_loop_inserts[of bill latest us reading 0] by simp

text \<open>
  The theorem on the example actions with the stored date 2023-01-31: the second and the
  third action are after it.
\<close>

theorem diff_correctness_witness:
  "actions_loop example_bill (Some (2023, 1, 31)) example_actions (Some ''First reading'') 0
     = ([Insert \<lparr>Bill = [''rec1''], Status = ''Moving'', Status_notes = ''Read third time'',
                  Date_last_status_change = ''2023-02-05'', Location = ''Assembly'',
                  Reading = ''First reading''\<rparr>,
         Insert \<lparr>Bill = [''rec1''], Status = ''Moving'',
                  Status_notes = ''In Senate. Read second time'',
                  Date_last_status_change = ''2023-03-01'', Location = ''Senate'',
                  Reading = ''Second reading''\<rparr>], Inr 2)
   \<and> filter (is_new (Some (2023, 1, 31))) example_actions = tl example_actions"
  using diff_correctness[of example_actions example_bill "Some (2023, 1, 31)" "Some ''First reading''"]
  by (simp add: eval_defs is_new_def)

text \<open>
  The same for the whole processing of a bill, when the most-recent-action date that
  upstream reports is not before the date of any action it lists: the guard before the
  loop then only skips bills that have no new action.
\<close>

lemma process_bill_diff:
  assumes "row_fields bill ''Bill'' = Some b" "row_fields bill ''Year introduced'' = Some ys"
    "py_int ys = Some year" "g ''CA'' (leg_year year) (bill_id_of b) = Inr data"
    and l: "latest_airtable_update bill = Inr latest"
    and parse: "\<forall>u\<in>set (actions data). \<exists>d. update_date_of u = Inr d"
    and cons: "\<forall>u\<in>set (actions data). \<forall>d. update_date_of u = Inr d \<longrightarrow>
                 d \<le> datetime_date (action_dates_last data)"
  shows "list_all2 row_of_action (inserted (fst (process_bill g bill)))
           (filter (is_new latest) (actions data))
         \<and> snd (process_bill g bill) = Inr ()"
proof -
  note p = process_bill_fetched[of bill b ys year g data latest, OF assms(1,2,3,4) l]
  show ?thesis
  proof (cases "on_or_before latest (datetime_date (action_dates_last data))")
    case True
    then obtain D where D: "latest = Some D" "datetime_date (action_dates_last data) \<le> D"
      by (auto simp: on_or_before_def split: option.splits)
    have "\<not> is_new latest u" if u: "u \<in> set (actions data)" for u
    proof -
      from parse u obtain d where d: "update_date_of u = Inr d" by blast
      then have "d \<le> datetime_date (action_dates_last data)" using cons u by blast
      then have "d \<le> D" using D(2) by (rule order_trans)
      then show ?thesis using d D(1) by (simp add: is_new_def)
    qed
    then have "filter (is_new latest) (actions data) = []" by (simp add: filter_empty_conv)
    then show ?thesis using p True by simp
  next
    case False
    let ?loop = "actions_loop bill latest (actions data) (row_fields bill ''Reading'') 0"
    from actions_loop_diff[OF parse, of bill latest "row_fields bill ''Reading''" 0]
    have r: "snd ?loop = Inr (length (filter (is_new latest) (actions data)))"
      "list_all2 row_of_action (inserted (fst ?loop)) (filter (is_new latest) (actions data))"
      by simp_all
    obtain evs where "?loop = (evs, Inr (length (filter (is_new latest) (actions data))))"
      using r(1) by (cases ?loop) auto
    then show ?thesis using p False r(2) by (simp add: inserted_append)
  qed
qed

section \<open>The loop over the rows\<close>

lemma bills_loop_append:
  "snd (bills_loop g pre) = Inr () \<Longrightarrow>
     bills_loop g (pre @ rest)
       = (fst (bills_loop g pre) @ fst (bills_loop g rest), snd (bills_loop g rest))"
  by (induction pre) (auto simp: split_beta split: sum.splits)

text \<open>
  C4. Take a bill with an identifier and a year, whose fetch succeeds and which has a
  stored last-update date \<open>D\<close>. If the upstream most-recent-action date is on or before
  \<open>D\<close>, then processing the bill does the fetch, prints "<id>: No updates" and nothing
  else: no row is inserted, the action history plays no part in the outcome (it may hold
  anything), and the run goes on with the next bill.
\<close>

theorem up_to_date_short_circuit:
  assumes "row_fields bill ''Bill'' = Some b"
    and "row_fields bill ''Year introduced'' = Some ys"
    and "py_int ys = Some year"
    and "get_bill ''CA'' (leg_year year) (bill_id_of b) = Inr data"
    and "row_fields bill ''Last update'' = Some s"
    and "fromisoformat s = Inr D"
    and "datetime_date (action_dates_last data) \<le> D"
  shows "process_bill get_bill bill
           = ([GetBill ''CA'' (leg_year year) (bill_id_of b),
               Print (bill_id_of b @ '': No updates'')], Inr ())
         \<and> inserted (fst (process_bill get_bill bill)) = []
         \<and> bills_loop get_bill (bill # rest)
             = ([GetBill ''CA'' (leg_year year) (bill_id_of b),
                 Print (bill_id_of b @ '': No updates'')] @ fst (bills_loop get_bill rest),
                snd (bills_loop get_bill rest))"
proof -
  have l: "latest_airtable_update bill = Inr (Some D)"
    using assms(5,6) by (simp add: latest_airtable_update_def)
  have p: "process_bill get_bill bill
           = ([GetBill ''CA'' (leg_year year) (bill_id_of b),
               Print (bill_id_of b @ '': No updates'')], Inr ())"
    using process_bill_fetched[of bill b ys year get_bill data "Some D"] assms(1,2,3,4,7) l
    by (simp add: on_or_before_def)
  then show ?thesis by (simp add: split_beta)
qed

text \<open>The theorem on the example bill, with the date of the last example action stored.\<close>

theorem up_to_date_short_circuit_witness:
  "process_bill example_upstream
     (example_bill\<lparr>row_fields := (row_fields example_bill)(''Last update'' \<mapsto> ''2023-03-01'')\<rparr>)
     = ([GetBill ''CA'' ''20232024'' ''AB 123'', Print ''AB 123: No updates''], Inr ())"
  using up_to_date_short_circuit[of
      "example_bill\<lparr>row_fields := (row_fields example_bill)(''Last update'' \<mapsto> ''2023-03-01'')\<rparr>"
      "''AB123''" "''2023''" 2023 example_upstream
      "\<lparr>action_dates_last = ((2023, 3, 1), 0), actions = example_actions\<rparr>"
      "''2023-03-01''" "(2023, 3, 1)"]
  by (simp add: eval_defs)

text \<open>
  C10. Processing a row is a silent skip (no event, no exception) exactly when the row has
  no "Bill". A row with a "Bill" but without "Year introduced" raises \<^verbatim>\<open>KeyError\<close>, and
  one whose year is not the text of an integer raises \<^verbatim>\<open>ValueError\<close>, both before
  anything is fetched, inserted or printed for that row. Such an exception ends the run:
  the rows after it are not processed and the closing lines are not printed.
\<close>

theorem missing_year_raises:
  "(process_bill g bill = ([], Inr ()) \<longleftrightarrow> row_fields bill ''Bill'' = None)
   \<and> (row_fields bill ''Bill'' \<noteq> None \<and> row_fields bill ''Year introduced'' = None \<longrightarrow>
        process_bill g bill = ([], Inl (KeyError ''Year introduced'')))
   \<and> (row_fields bill ''Bill'' \<noteq> None \<and> row_fields bill ''Year introduced'' = Some ys
        \<and> py_int ys = None \<longrightarrow>
        process_bill g bill = ([], Inl (InvalidInt ys)))
   \<and> (snd (bills_loop g pre) = Inr () \<and> process_bill g bill = ([], Inl e)
        \<and> \<not> not_configured a_key \<and> \<not> not_configured o_key \<longrightarrow>
        main a_key o_key g (pre @ bill # post) = (GetAll # fst (bills_loop g pre), Inl e))"
proof -
  have 1: "process_bill g bill = ([], Inr ()) \<longleftrightarrow> row_fields bill ''Bill'' = None"
    by (auto simp: process_bill_def Let_def split: option.splits sum.splits prod.splits)
  have 2: "process_bill g bill = ([], Inl (KeyError ''Year introduced''))"
    if "row_fields bill ''Bill'' \<noteq> None" "row_fields bill ''Year introduced'' = None"
    using that by (auto simp: process_bill_def Let_def)
  have 3: "process_bill g bill = ([], Inl (InvalidInt ys))"
    if "row_fields bill ''Bill'' \<noteq> None" "row_fields bill ''Year introduced'' = Some ys"
      "py_int ys = None"
    using that by (auto simp: process_bill_def Let_def)
  have 4: "main a_key o_key g (pre @ bill # post) = (GetAll # fst (bills_loop g pre), Inl e)"
    if "snd (bills_loop g pre) = Inr ()" "process_bill g bill = ([], Inl e)"
      "\<not> not_configured a_key" "\<not> not_configured o_key"
  proof -
    have "bills_loop g (bill # post) = ([], Inl e)" using that(2) by simp
    then have "bills_loop g (pre @ bill # post) = (fst (bills_loop g pre), Inl e)"
      using bills_loop_append[OF that(1), of "bill # post"] by simp
    then show ?thesis using that(3,4) by (simp add: main_def)
  qed
  show ?thesis using 1 2 3 4 by blast
qed

text \<open>
  The theorem on a row without a year, on a row whose year is "soon", on a row without
  identifier, and on a run over three rows of which the second has no year.
\<close>

theorem missing_year_raises_witness:
  "process_bill example_upstream \<lparr>row_id = ''rec2'', row_fields = [''Bill'' \<mapsto> ''SB7'']\<rparr>
     = ([], Inl (KeyError ''Year introduced''))
   \<and> process_bill example_upstream
        \<lparr>row_id = ''rec3'', row_fields = [''Bill'' \<mapsto> ''SB7'', ''Year introduced'' \<mapsto> ''soon'']\<rparr>
     = ([], Inl (InvalidInt ''soon''))
   \<and> process_bill example_upstream \<lparr>row_id = ''rec4'', row_fields = Map.empty\<rparr> = ([], Inr ())
   \<and> main (Some ''key'') (Some ''key'') example_upstream
        [\<lparr>row_id = ''rec4'', row_fields = Map.empty\<rparr>,
         \<lparr>row_id = ''rec2'', row_fields = [''Bill'' \<mapsto> ''SB7'']\<rparr>, example_bill]
     = ([GetAll], Inl (KeyError ''Year introduced''))"
  using missing_year_raises[of example_upstream
      "\<lparr>row_id = ''rec2'', row_fields = [''Bill'' \<mapsto> ''SB7'']\<rparr>" "''soon''"
      "[\<lparr>row_id = ''rec4'', row_fields = Map.empty\<rparr>]" "KeyError ''Year introduced''"
      "Some ''key''" "Some ''key''" "[example_bill]"]
    missing_year_raises[of example_upstream
      "\<lparr>row_id = ''rec3'', row_fields = [''Bill'' \<mapsto> ''SB7'', ''Year introduced'' \<mapsto> ''soon'']\<rparr>"
      "''soon''" "[]" "InvalidInt ''soon''" "Some ''key''" "Some ''key''" "[]"]
    missing_year_raises[of example_upstream "\<lparr>row_id = ''rec4'', row_fields = Map.empty\<rparr>"]
  by (simp add: eval_defs not_configured_def lower_az_def)

section \<open>Running the sync twice\<close>

lemma latest_inserted_None: "latest_inserted rs = None \<longleftrightarrow> rs = []"
  by (cases rs) (auto split: option.splits)

lemma latest_inserted_Some:
  "latest_inserted rs = Some s \<Longrightarrow>
     (\<exists>r\<in>set rs. s = Date_last_status_change r)
     \<and> (\<forall>r\<in>set rs. date_key (Date_last_status_change r) \<le> date_key s)"
proof (induction rs arbitrary: s)
  case Nil
  then show ?case by simp
next
  case (Cons r rs)
  show ?case
  proof (cases "latest_inserted rs")
    case None
    then have "rs = []" by (simp add: latest_inserted_None)
    then show ?thesis using Cons.prems by simp
  next
    case (Some s')
    note ih = Cons.IH[OF Some]
    show ?thesis
    proof (cases "date_key s' \<le> date_key (Date_last_status_change r)")
      case True
      then have "s = Date_last_status_change r" using Cons.prems Some by simp
      then show ?thesis using ih True by auto
    next
      case False
      then have "s = s'" using Cons.prems Some by simp
      then show ?thesis using ih False by auto
    qed
  qed
qed

lemma fromisoformat_isoformat:
  "update_date_of u = Inr d \<Longrightarrow> fromisoformat (isoformat d) = Inr d"
  unfolding update_date_of_def using isoformat_fromisoformat by metis

lemma actions_loop_row_dates:
  "r \<in> set (inserted (fst (actions_loop bill latest us reading n))) \<Longrightarrow>
     \<exists>d. fromisoformat (Date_last_status_change r) = Inr d \<and> \<not> on_or_before latest d"
proof (induction us arbitrary: reading n)
  case Nil
  then show ?case by simp
next
  case (Cons u us)
  show ?case
  proof (cases "update_date_of u")
    case (Inl e)
    then show ?thesis using Cons.prems by simp
  next
    case (Inr d)
    show ?thesis
    proof (cases "on_or_before latest d")
      case True
      then show ?thesis using Inr Cons.prems Cons.IH[of reading n] by simp
    next
      case False
      from Cons.prems Inr False
      have "Date_last_status_change r = isoformat d
            \<or> r \<in> set (inserted (fst (actions_loop bill latest us
                  (Some (advance_reading reading (act_type u))) (n + 1))))"
        by (auto simp: Let_def split_beta)
      then show ?thesis
      proof
        assume "Date_last_status_change r = isoformat d"
        then show ?thesis using fromisoformat_isoformat[OF Inr] False by auto
      next
        assume "r \<in> set (inserted (fst (actions_loop bill latest us
                  (Some (advance_reading reading (act_type u))) (n + 1))))"
        then show ?thesis by (rule Cons.IH)
      qed
    qed
  qed
qed

text \<open>
  With a stored date that is not before the old one nor before the date of any row the
  loop inserted, the loop inserts nothing.
\<close>

lemma actions_loop_second:
  assumes "\<forall>r\<in>set (inserted (fst (actions_loop bill latest us reading n))).
             date_key (Date_last_status_change r) \<le> D'"
    and "\<forall>D. latest = Some D \<longrightarrow> D \<le> D'"
  shows "inserted (fst (actions_loop bill2 (Some D') us reading2 n2)) = []"
  using assms(1)
proof (induction us arbitrary: reading n reading2 n2)
  case Nil
  then show ?case by simp
next
  case (Cons u us)
  show ?case
  proof (cases "update_date_of u")
    case (Inl e)
    then show ?thesis by simp
  next
    case (Inr d)
    show ?thesis
    proof (cases "on_or_before latest d")
      case True
      then obtain D where D: "latest = Some D" "d \<le> D"
        by (auto simp: on_or_before_def split: option.splits)
      have "D \<le> D'" using assms(2) D(1) by simp
      with D(2) have "d \<le> D'" by (rule order_trans)
      then have skip: "on_or_before (Some D') d" by (simp add: on_or_before_def)
      have "\<forall>r\<in>set (inserted (fst (actions_loop bill latest us reading n))).
              date_key (Date_last_status_change r) \<le> D'"
        using Cons.prems Inr True by simp
      from Cons.IH[OF this, of reading2 n2] show ?thesis using Inr skip by simp
    next
      case False
      let ?r' = "Some (advance_reading reading (act_type u))"
      have rows: "\<forall>r\<in>set (inserted (fst (actions_loop bill latest (u # us) reading n))).
              date_key (Date_last_status_change r) \<le> D'"
        using Cons.prems .
      have "date_key (isoformat d) \<le> D'"
        using rows Inr False by (simp add: Let_def split_beta)
      then have "d \<le> D'" using fromisoformat_isoformat[OF Inr] by (simp add: date_key_def)
      then have skip: "on_or_before (Some D') d" by (simp add: on_or_before_def)
      have "\<forall>r\<in>set (inserted (fst (actions_loop bill latest us ?r' (n + 1)))).
              date_key (Date_last_status_change r) \<le> D'"
        using rows Inr False by (simp add: Let_def split_beta)
      from Cons.IH[OF this, of reading2 n2] show ?thesis using Inr skip by simp
    qed
  qed
qed

lemma actions_loop_returns_any:
  assumes "snd (actions_loop bill latest us reading n) = Inr k"
  shows "\<exists>k'. snd (actions_loop bill2 latest2 us reading2 n2) = Inr k'"
  using assms actions_loop_returns[of bill latest us reading n]
    actions_loop_returns[of bill2 latest2 us reading2 n2] by blast


lemma process_bill_refresh:
  assumes ok: "snd (process_bill g bill) = Inr ()"
  shows "inserted (fst (process_bill g (refresh g bill))) = []
         \<and> snd (process_bill g (refresh g bill)) = Inr ()"
proof (cases "latest_inserted (inserted (fst (process_bill g bill)))")
  case None
  then have "refresh g bill = bill" "inserted (fst (process_bill g bill)) = []"
    by (simp_all add: refresh_def latest_inserted_None)
  then show ?thesis using ok by simp
next
  case (Some s)
  let ?rows = "inserted (fst (process_bill g bill))"
  have ne: "?rows \<noteq> []" using Some latest_inserted_None[of ?rows] by auto
  with process_bill_rows[of g bill] ok
  obtain b ys year latest and data :: bill_data where
    f: "row_fields bill ''Bill'' = Some b" "row_fields bill ''Year introduced'' = Some ys"
      "py_int ys = Some year" "g ''CA'' (leg_year year) (bill_id_of b) = Inr data"
    and l: "latest_airtable_update bill = Inr latest"
    and rows: "?rows = inserted (fst (actions_loop bill latest (actions data)
                                        (row_fields bill ''Reading'') 0))"
    and ret: "\<exists>k. snd (actions_loop bill latest (actions data)
                           (row_fields bill ''Reading'') 0) = Inr k"
    by blast
  from latest_inserted_Some[OF Some]
  obtain r where r: "r \<in> set ?rows" "s = Date_last_status_change r"
    and mx: "\<forall>r\<in>set ?rows. date_key (Date_last_status_change r) \<le> date_key s"
    by blast
  from r(1) rows actions_loop_row_dates[of r bill latest "actions data" "row_fields bill ''Reading''" 0]
  obtain d0 where d0: "fromisoformat s = Inr d0" "\<not> on_or_before latest d0"
    using r(2) by auto
  have key: "date_key s = d0" using d0(1) by (simp add: date_key_def)
  have older: "\<forall>D. latest = Some D \<longrightarrow> D \<le> d0"
    using d0(2) by (auto simp: on_or_before_def)
  let ?b2 = "bill\<lparr>row_fields := (row_fields bill)(''Last update'' \<mapsto> s)\<rparr>"
  have b2: "refresh g bill = ?b2" using Some by (simp add: refresh_def)
  have f2: "row_fields ?b2 ''Bill'' = Some b" "row_fields ?b2 ''Year introduced'' = Some ys"
    "row_fields ?b2 ''Reading'' = row_fields bill ''Reading''"
    using f by simp_all
  have l2: "latest_airtable_update ?b2 = Inr (Some d0)"
    using d0(1) by (simp add: latest_airtable_update_def)
  note p2 = process_bill_fetched[of ?b2 b ys year g data "Some d0", OF f2(1,2) f(3,4) l2]
  show ?thesis
  proof (cases "on_or_before (Some d0) (datetime_date (action_dates_last data))")
    case True
    then show ?thesis unfolding b2 p2 by simp
  next
    case False
    let ?loop2 = "actions_loop ?b2 (Some d0) (actions data) (row_fields bill ''Reading'') 0"
    have "\<forall>r\<in>set (inserted (fst (actions_loop bill latest (actions data)
                  (row_fields bill ''Reading'') 0))). date_key (Date_last_status_change r) \<le> d0"
      using mx rows key by simp
    from actions_loop_second[OF this older, of ?b2 "row_fields bill ''Reading''" 0]
    have none: "inserted (fst ?loop2) = []" .
    from ret obtain k where "snd (actions_loop bill latest (actions data)
                           (row_fields bill ''Reading'') 0) = Inr k" by blast
    from actions_loop_returns_any[OF this, of ?b2 "Some d0" "row_fields bill ''Reading''" 0]
    obtain k' where k': "snd ?loop2 = Inr k'" by blast
    obtain evs where loop2: "?loop2 = (evs, Inr k')" using k' by (cases ?loop2) auto
    then have "inserted evs = []" using none by simp
    then show ?thesis unfolding b2 p2 using False loop2 f2(3) by (simp add: inserted_append)
  qed
qed

lemma bills_loop_refresh:
  "snd (bills_loop g bills) = Inr () \<Longrightarrow>
     inserted (fst (bills_loop g (map (refresh g) bills))) = []
     \<and> snd (bills_loop g (map (refresh g) bills)) = Inr ()"
proof (induction bills)
  case Nil
  then show ?case by simp
next
  case (Cons bill bills)
  from Cons.prems have ok: "snd (process_bill g bill) = Inr ()" "snd (bills_loop g bills) = Inr ()"
    by (auto simp: split_beta split: sum.splits)
  from process_bill_refresh[OF ok(1)] Cons.IH[OF ok(2)]
  show ?case by (auto simp: split_beta inserted_append split: sum.splits)
qed

text \<open>
  C5. Let a run of the sync complete. Let the store then hold, for each bill for which
  rows were inserted, the latest date of these rows as its "Last update", everything else
  unchanged. A second run against the same upstream data then completes as well and
  inserts no row, for any bill.
\<close>

theorem sync_idempotent:
  assumes "snd (main a_key o_key g bills) = Inr ()"
  shows "inserted (fst (main a_key o_key g (map (refresh g) bills))) = []
         \<and> snd (main a_key o_key g (map (refresh g) bills)) = Inr ()"
proof -
  have cfg: "\<not> not_configured a_key" "\<not> not_configured o_key"
    using assms by (auto simp: main_def split: if_splits)
  then have "snd (bills_loop g bills) = Inr ()"
    using assms by (auto simp: main_def split_beta split: sum.splits)
  from bills_loop_refresh[OF this] show ?thesis
    using cfg by (auto simp: main_def split_beta inserted_append split: sum.splits)
qed

text \<open>
  The theorem on the example: the first run inserts three rows for the example bill, the
  store then holds 2023-03-01 as its "Last update", and the second run reports no updates.
\<close>

theorem sync_idempotent_witness:
  "inserted (fst (main (Some ''key'') (Some ''key'') example_upstream [example_bill]))
     = inserted (fst (process_bill example_upstream example_bill))
   \<and> length (inserted (fst (process_bill example_upstream example_bill))) = 3
   \<and> row_fields (refresh example_upstream example_bill) ''Last update'' = Some ''2023-03-01''
   \<and> main (Some ''key'') (Some ''key'') example_upstream
        (map (refresh example_upstream) [example_bill])
      = ([GetAll, GetBill ''CA'' ''20232024'' ''AB 123'', Print ''AB 123: No updates'',
          Print [], Print ''See https://airtable.com/appVuarUc0kCpjwWn''], Inr ())"
  using sync_idempotent[of "Some ''key''" "Some ''key''" example_upstream "[example_bill]"]
  by (simp add: eval_defs main_def not_configured_def lower_az_def refresh_def date_key_def)

end
